theory Spec2Isabelle
  imports Main "HOL-Library.Word" "HOL-Library.Sublist"
begin

chapter \<open>Orbit: capture-view elements, the presets data view, and tracee memory access\<close>

section \<open>CaptureViewElement (OrbitGl/CaptureViewElement.h)\<close>

text \<open>
  The class \<^verbatim>\<open>orbit_gl::CaptureViewElement\<close> holds raw pointers
  (\<^verbatim>\<open>TimeGraphLayout*\<close>, \<^verbatim>\<open>GlCanvas*\<close>, \<^verbatim>\<open>TimeGraph*\<close>), four
  \<^verbatim>\<open>Vec2\<close> values, a flag and an owning pointer to its accessibility interface.
  A raw pointer is an optional address (\<open>None\<close> is \<^verbatim>\<open>nullptr\<close>); the
  component type of \<^verbatim>\<open>Vec2\<close> (a C++ \<^verbatim>\<open>float\<close>) is a type parameter, since no
  arithmetic is done on it here. The base class \<^verbatim>\<open>Pickable\<close> is an interface
  and contributes no data member. Isabelle reserves names that end in an underscore, so a
  C++ member \<^verbatim>\<open>canvas_\<close> is written \<open>canvas_'\<close>, and so on for every member.
\<close>

type_synonym addr = nat

type_synonym 'a ptr = "'a option"

datatype 'f Vec2 = Vec2 'f 'f

record ('f, 'ai) CaptureViewElement =
  layout_' :: "addr ptr"
  canvas_' :: "addr ptr"
  time_graph_' :: "addr ptr"
  pos_' :: "'f Vec2"
  size_' :: "'f Vec2"
  mouse_pos_last_click_' :: "'f Vec2"
  mouse_pos_cur_' :: "'f Vec2"
  picking_offset_' :: "'f Vec2"
  picked_' :: bool
  accessible_interface_' :: "'ai ptr"

text \<open>
  \<^verbatim>\<open>virtual void Draw(GlCanvas* canvas, PickingMode, float = 0) { canvas_ = canvas; }\<close>
  The picking mode and the z offset are unnamed parameters of the base-class body;
  their types are left open.
\<close>

definition Draw ::
  "('f, 'ai) CaptureViewElement \<Rightarrow> addr ptr \<Rightarrow> 'pm \<Rightarrow> 'z \<Rightarrow> ('f, 'ai) CaptureViewElement" where
  "Draw this canvas picking_mode z_offset = this\<lparr>canvas_' := canvas\<rparr>"

text \<open>The neighbouring setters, for comparison: they touch \<open>pos_\<close> and \<open>size_\<close> only.\<close>

definition SetPos :: "('f, 'ai) CaptureViewElement \<Rightarrow> 'f \<Rightarrow> 'f \<Rightarrow> ('f, 'ai) CaptureViewElement" where
  "SetPos this x y = this\<lparr>pos_' := Vec2 x y\<rparr>"

definition SetSize :: "('f, 'ai) CaptureViewElement \<Rightarrow> 'f \<Rightarrow> 'f \<Rightarrow> ('f, 'ai) CaptureViewElement" where
  "SetSize this width height = this\<lparr>size_' := Vec2 width height\<rparr>"

definition GetCanvas :: "('f, 'ai) CaptureViewElement \<Rightarrow> addr ptr" where
  "GetCanvas this = canvas_' this"

section \<open>PresetsDataView (OrbitGl/PresetsDataView.cpp)\<close>

subsection \<open>Data\<close>

text \<open>
  A \<^verbatim>\<open>PresetFile\<close> protocol buffer, as far as this file reads it: the file name
  (a path) and, per module path, the number of hooked function hashes, in the order in
  which the map \<^verbatim>\<open>preset_info().path_to_module()\<close> is iterated. The presets are held
  through shared pointers, but no preset is ever written through one here, so a preset
  is a value.
\<close>

record PresetFile =
  file_name :: string
  path_to_module :: "(string \<times> nat) list"

text \<open>\<^verbatim>\<open>struct ModuleView\<close>: the module's name and its function count, in this order.\<close>

datatype ModuleView = ModuleView string nat

text \<open>
  The members the file works on. \<open>indices_'\<close> and \<open>filter_'\<close> belong to the
  base class \<^verbatim>\<open>DataView\<close>; \<open>presets_'\<close> and \<open>modules_'\<close> are private members of
  \<^verbatim>\<open>PresetsDataView\<close>. An index (\<^verbatim>\<open>uint64_t\<close>) never exceeds the size of a vector
  here, so it is a natural number.
\<close>

record PresetsDataView =
  indices_' :: "nat list"
  filter_' :: string
  presets_' :: "PresetFile list"
  modules_' :: "ModuleView list list"

text \<open>
  What the file calls and does not define: \<^verbatim>\<open>ToLower\<close> (CoreUtils.h),
  \<^verbatim>\<open>std::filesystem::path(p).filename().string()\<close> (whose result depends on the
  platform's path syntax), the C library's \<^verbatim>\<open>remove\<close> (its return value for a file
  name, at the moment of the call), and the base-class methods
  \<^verbatim>\<open>DataView::OnDataChanged\<close> and \<^verbatim>\<open>DataView::OnContextMenu\<close>. They are
  parameters of the model.
\<close>

datatype app_call =
    LoadPreset PresetFile
  | LogError string
  | MetricSetStatusCode_INTERNAL_ERROR
  | SendErrorToUi string string

type_synonym c_int = "32 word"

record env =
  ToLower :: "string \<Rightarrow> string"
  path_filename :: "string \<Rightarrow> string"
  c_remove :: "string \<Rightarrow> int"
  DataView_OnDataChanged :: "PresetsDataView \<Rightarrow> PresetsDataView"
  DataView_OnContextMenu ::
    "string \<Rightarrow> c_int \<Rightarrow> c_int list \<Rightarrow> PresetsDataView \<Rightarrow> PresetsDataView \<times> app_call list"

text \<open>
  A base-class method cannot name the private members of the derived class, and the
  virtual methods it can reach in this file (\<^verbatim>\<open>DoSort\<close>, \<^verbatim>\<open>DoFilter\<close>) assign
  \<open>indices_'\<close> only: whatever the base class does, \<open>presets_'\<close> and \<open>modules_'\<close>
  come back as they went in.
\<close>

definition base_call :: "(PresetsDataView \<Rightarrow> PresetsDataView) \<Rightarrow> PresetsDataView \<Rightarrow> PresetsDataView" where
  "base_call f s = (f s)\<lparr>presets_' := presets_' s, modules_' := modules_' s\<rparr>"

text \<open>
  \<^verbatim>\<open>operator[]\<close> of \<^verbatim>\<open>std::vector\<close> outside the vector is undefined behaviour; the
  model makes it a fault, so that a result \<open>Inr\<close> stands for a defined execution.
\<close>

datatype fault = OutOfBounds

definition at :: "'a list \<Rightarrow> nat \<Rightarrow> fault + 'a" where
  "at xs i = (if i < length xs then Inr (xs ! i) else Inl OutOfBounds)"

text \<open>\<^verbatim>\<open>v.resize(n)\<close>: cut, or fill with value-initialised elements.\<close>

definition resize :: "nat \<Rightarrow> 'a \<Rightarrow> 'a list \<Rightarrow> 'a list" where
  "resize n d xs = take n xs @ replicate (n - length xs) d"

text \<open>\<^verbatim>\<open>v.erase(v.begin() + k)\<close> for \<open>k\<close> inside the vector.\<close>

definition erase :: "'a list \<Rightarrow> nat \<Rightarrow> 'a list" where
  "erase xs k = take k xs @ drop (Suc k) xs"

subsection \<open>Strings\<close>

text \<open>
  \<^verbatim>\<open>name.find(token)\<close> of \<^verbatim>\<open>std::string\<close> (named \<open>find_str\<close>, since
  \<open>find\<close> is taken by the list library): the first position at which \<open>token\<close> starts in \<open>name\<close>,
  or \<^verbatim>\<open>npos\<close> (\<open>None\<close>). The empty token is found at position 0 of every string.
\<close>

fun find_str :: "string \<Rightarrow> string \<Rightarrow> nat option" where
  "find_str [] token = (if token = [] then Some 0 else None)"
| "find_str (c # cs) token =
     (if prefix token (c # cs) then Some 0 else map_option Suc (find_str cs token))"

text \<open>
  \<^verbatim>\<open>absl::StrSplit(text, ' ')\<close> into a vector of strings: every delimiter ends a
  token, empty tokens are kept, and the empty string splits into one empty token.
\<close>

fun StrSplit :: "string \<Rightarrow> char \<Rightarrow> string list" where
  "StrSplit [] d = [[]]"
| "StrSplit (c # cs) d =
     (if c = d then [] # StrSplit cs d
      else (case StrSplit cs d of [] \<Rightarrow> [[c]] | t # ts \<Rightarrow> (c # t) # ts))"

text \<open>
  \<^verbatim>\<open>absl::StrJoin\<close> with a separator, the inverse of splitting (the file uses it to
  list the modules of a row, one per line).
\<close>

fun StrJoin :: "string list \<Rightarrow> string \<Rightarrow> string" where
  "StrJoin [] sep = []"
| "StrJoin [t] sep = t"
| "StrJoin (t # ts) sep = t @ sep @ StrJoin ts sep"

subsection \<open>Accessors\<close>

text \<open>
  \<^verbatim>\<open>GetPreset(unsigned int row)\<close> is \<^verbatim>\<open>presets_[indices_[row]]\<close>. A caller holding
  an \<^verbatim>\<open>int\<close> converts it to \<^verbatim>\<open>unsigned int\<close> (\<open>unat\<close> of the 32-bit word).
\<close>

definition GetPreset :: "PresetsDataView \<Rightarrow> c_int \<Rightarrow> fault + PresetFile" where
  "GetPreset s row =
     (case at (indices_' s) (unat row) of
        Inl f \<Rightarrow> Inl f
      | Inr k \<Rightarrow> at (presets_' s) k)"

definition GetModules :: "PresetsDataView \<Rightarrow> c_int \<Rightarrow> fault + ModuleView list" where
  "GetModules s row =
     (case at (indices_' s) (unat row) of
        Inl f \<Rightarrow> Inl f
      | Inr k \<Rightarrow> at (modules_' s) k)"

subsection \<open>DoFilter\<close>

text \<open>
  The inner loop over the tokens, with its \<^verbatim>\<open>break\<close>: \<open>match\<close> stays true as
  long as every token so far is found.
\<close>

fun tokens_match :: "string \<Rightarrow> string list \<Rightarrow> bool" where
  "tokens_match name [] = True"
| "tokens_match name (filter_token # tokens) =
     (if find_str name filter_token = None then False else tokens_match name tokens)"

text \<open>The outer loop \<^verbatim>\<open>for (size_t i = 0; i < presets_.size(); ++i)\<close>.\<close>

function DoFilter_loop ::
  "env \<Rightarrow> string list \<Rightarrow> PresetFile list \<Rightarrow> nat \<Rightarrow> nat list \<Rightarrow> nat list" where
  "DoFilter_loop e tokens presets i indices =
     (if i < length presets then
        (let preset = presets ! i;
             name = ToLower e (path_filename e (file_name preset));
             match = tokens_match name tokens
         in DoFilter_loop e tokens presets (Suc i) (if match then indices @ [i] else indices))
      else indices)"
  by pat_completeness auto
termination
  by (relation "measure (\<lambda>(e, tokens, presets, i, indices). length presets - i)") auto

declare DoFilter_loop.simps [simp del]

definition DoFilter :: "env \<Rightarrow> PresetsDataView \<Rightarrow> PresetsDataView" where
  "DoFilter e s =
     (let tokens = StrSplit (ToLower e (filter_' s)) CHR '' ''
      in s\<lparr>indices_' := DoFilter_loop e tokens (presets_' s) 0 []\<rparr>)"

subsection \<open>OnDataChanged\<close>

text \<open>
  The inner loop over \<^verbatim>\<open>path_to_module()\<close>: one \<^verbatim>\<open>ModuleView\<close> per entry, made of
  the file name of the module's path and the number of its function hashes.
\<close>

fun modules_of :: "env \<Rightarrow> (string \<times> nat) list \<Rightarrow> ModuleView list" where
  "modules_of e [] = []"
| "modules_of e (pair # rest) =
     ModuleView (path_filename e (fst pair)) (snd pair) # modules_of e rest"

text \<open>
  The loop \<^verbatim>\<open>for (size_t i = 0; i < presets_.size(); ++i)\<close>, which assigns
  \<^verbatim>\<open>indices_[i]\<close> and \<^verbatim>\<open>modules_[i]\<close>. Both vectors have been resized to the
  number of presets before, so the assignments are inside them.
\<close>

function OnDataChanged_loop :: "env \<Rightarrow> nat \<Rightarrow> PresetsDataView \<Rightarrow> PresetsDataView" where
  "OnDataChanged_loop e i s =
     (if i < length (presets_' s) then
        OnDataChanged_loop e (Suc i)
          (s\<lparr>indices_' := (indices_' s)[i := i],
             modules_' := (modules_' s)[i := modules_of e (path_to_module (presets_' s ! i))]\<rparr>)
      else s)"
  by pat_completeness auto
termination
  by (relation "measure (\<lambda>(e, i, s). length (presets_' s) - i)") auto

declare OnDataChanged_loop.simps [simp del]

definition OnDataChanged :: "env \<Rightarrow> PresetsDataView \<Rightarrow> PresetsDataView" where
  "OnDataChanged e s =
     (let n = length (presets_' s);
          resized = s\<lparr>indices_' := resize n 0 (indices_' s), modules_' := resize n [] (modules_' s)\<rparr>
      in base_call (DataView_OnDataChanged e) (OnDataChanged_loop e 0 resized))"

definition SetPresets :: "env \<Rightarrow> PresetFile list \<Rightarrow> PresetsDataView \<Rightarrow> PresetsDataView" where
  "SetPresets e presets s = OnDataChanged e (s\<lparr>presets_' := presets\<rparr>)"

subsection \<open>OnContextMenu\<close>

definition kMenuActionLoad :: string where
  "kMenuActionLoad = ''Load Preset''"

definition kMenuActionDelete :: string where
  "kMenuActionDelete = ''Delete Preset''"

text \<open>
  \<^verbatim>\<open>absl::StrFormat("Could not delete preset \"%s\".", filename)\<close>; the character with
  code \<open>0x22\<close> is the double quote.
\<close>

definition could_not_delete :: "string \<Rightarrow> string" where
  "could_not_delete filename =
     ''Could not delete preset '' @ [CHR 0x22] @ filename @ [CHR 0x22] @ ''.''"

text \<open>
  The result is a fault where the C++ reads outside a vector, and otherwise the view
  afterwards with the calls made on the application, the log and the metric, in order.
  In the delete branch \<^verbatim>\<open>int row\<close> is used twice: converted to \<^verbatim>\<open>unsigned int\<close> for
  \<^verbatim>\<open>GetPreset(row)\<close>, and converted to \<^verbatim>\<open>size_t\<close> (sign-extended to 64 bits) for
  \<^verbatim>\<open>indices_[row]\<close>. \<^verbatim>\<open>erase\<close> at a position that is not inside the vector is
  undefined as well. The \<^verbatim>\<open>ScopedMetric\<close> object itself lives in MetricsUploader; of
  it, the model records the one call this file makes, \<^verbatim>\<open>SetStatusCode\<close>.
\<close>

definition OnContextMenu ::
  "env \<Rightarrow> string \<Rightarrow> c_int \<Rightarrow> c_int list \<Rightarrow> PresetsDataView
     \<Rightarrow> fault + (PresetsDataView \<times> app_call list)" where
  "OnContextMenu e action menu_index item_indices s =
     (if action = kMenuActionLoad then
        (if length item_indices \<noteq> 1 then Inr (s, [])
         else (case GetPreset s (item_indices ! 0) of
                 Inl f \<Rightarrow> Inl f
               | Inr preset \<Rightarrow> Inr (s, [LoadPreset preset])))
      else if action = kMenuActionDelete then
        (if length item_indices \<noteq> 1 then Inr (s, [])
         else
           (let row = item_indices ! 0 in
            case GetPreset s row of
              Inl f \<Rightarrow> Inl f
            | Inr preset \<Rightarrow>
                (let filename = file_name preset;
                     ret = c_remove e filename
                 in if ret = 0 then
                      (case at (indices_' s) (unat (scast row :: 64 word)) of
                         Inl f \<Rightarrow> Inl f
                       | Inr k \<Rightarrow>
                           if k < length (presets_' s)
                           then Inr (OnDataChanged e (s\<lparr>presets_' := erase (presets_' s) k\<rparr>), [])
                           else Inl OutOfBounds)
                    else Inr (s, [LogError filename,
                                  MetricSetStatusCode_INTERNAL_ERROR,
                                  SendErrorToUi ''Error deleting preset'' (could_not_delete filename)]))))
      else
        (case DataView_OnContextMenu e action menu_index item_indices s of
           (s', calls) \<Rightarrow> (Inr (s'\<lparr>presets_' := presets_' s, modules_' := modules_' s\<rparr>, calls))))"

text \<open>
  A row of the view, as the selection hands it over: a non-negative \<^verbatim>\<open>int\<close> that is
  a position of \<open>indices_'\<close>, whose entry is a position of \<open>presets_'\<close>. This is
  what \<^verbatim>\<open>GetPreset\<close> needs to be defined; \<open>DoFilter\<close> and the loop of
  \<open>OnDataChanged\<close> leave only such entries in \<open>indices_'\<close>.
\<close>

definition is_row :: "PresetsDataView \<Rightarrow> c_int \<Rightarrow> bool" where
  "is_row s row \<longleftrightarrow>
     0 \<le> sint row \<and> nat (sint row) < length (indices_' s)
     \<and> indices_' s ! nat (sint row) < length (presets_' s)"

subsection \<open>Instances of the parameters, for evaluation\<close>

text \<open>
  \<^verbatim>\<open>tolower\<close> of the C locale on every character, and the file name of a path in
  POSIX syntax: what follows the last slash.
\<close>

definition ascii_tolower :: "char \<Rightarrow> char" where
  "ascii_tolower c =
     (if (65::nat) \<le> of_char c \<and> of_char c \<le> (90::nat) then char_of (of_char c + (32::nat)) else c)"

fun posix_filename :: "string \<Rightarrow> string" where
  "posix_filename [] = []"
| "posix_filename (c # cs) =
     (if CHR ''/'' \<in> set cs then posix_filename cs
      else if c = CHR ''/'' then cs else c # cs)"

text \<open>
  An environment in which \<^verbatim>\<open>remove\<close> succeeds on every file but
  \<^verbatim>\<open>/ro/locked.opr\<close>, and the base class does nothing.
\<close>

definition env0 :: env where
  "env0 = \<lparr>ToLower = map ascii_tolower,
           path_filename = posix_filename,
           c_remove = (\<lambda>f. if f = ''/ro/locked.opr'' then - 1 else 0),
           DataView_OnDataChanged = (\<lambda>s. s),
           DataView_OnContextMenu = (\<lambda>action menu_index item_indices s. (s, []))\<rparr>"

definition view0 :: PresetsDataView where
  "view0 = \<lparr>indices_' = [0, 1, 2],
            filter_' = ''FOO r'',
            presets_' = [\<lparr>file_name = ''/home/u/Foo.opr'', path_to_module = [(''/usr/lib/libc.so'', 3)]\<rparr>,
                         \<lparr>file_name = ''/ro/locked.opr'', path_to_module = []\<rparr>,
                         \<lparr>file_name = ''/foo/x/FooBar.opr'', path_to_module = [(''/bin/game'', 2), (''/lib/libm.so'', 1)]\<rparr>],
            modules_' = [[ModuleView ''libc.so'' 3], [], [ModuleView ''game'' 2, ModuleView ''libm.so'' 1]]\<rparr>"

section \<open>TraceeMemoryAccessor (UserSpaceInstrumentation/AccessTraceesMemory.cpp)\<close>

text \<open>
  The build file of UserSpaceInstrumentation lists \<^verbatim>\<open>AccessTraceesMemory.cpp\<close>,
  \<^verbatim>\<open>Attach.cpp\<close>, \<^verbatim>\<open>RegisterState.cpp\<close> and \<^verbatim>\<open>AllocateInTracee.cpp\<close>, but the
  files themselves are not among the sources at hand. The memory accessor is therefore
  modelled from its specification (section 4.3), sentence by sentence.
\<close>

subsection \<open>The tracee's memory and the transfer primitive\<close>

text \<open>
  Modelled from the spec: the target's address space, which \<^verbatim>\<open>AccessTraceesMemory.cpp\<close>
  reaches through the operating system. An address is mapped to a byte or is unmapped
  (\<open>None\<close>).
\<close>

type_synonym byte = "8 word"

type_synonym memory = "addr \<Rightarrow> byte option"

text \<open>
  Modelled from the spec: the machine word of ``the underlying transfer primitive
  operates at machine-word granularity''; eight bytes on the 64-bit target.
\<close>

definition word_size :: nat where
  "word_size = 8"

text \<open>
  Modelled from the spec: reading \<open>n\<close> consecutive bytes, which yields nothing as soon
  as one of them is unmapped, and writing consecutive bytes.
\<close>

fun load :: "memory \<Rightarrow> addr \<Rightarrow> nat \<Rightarrow> byte list option" where
  "load m a 0 = Some []"
| "load m a (Suc n) =
     (case m a of
        None \<Rightarrow> None
      | Some b \<Rightarrow> (case load m (Suc a) n of None \<Rightarrow> None | Some bs \<Rightarrow> Some (b # bs)))"

fun store :: "memory \<Rightarrow> addr \<Rightarrow> byte list \<Rightarrow> memory" where
  "store m a [] = m"
| "store m a (b # bs) = store (m(a \<mapsto> b)) (Suc a) bs"

text \<open>
  Modelled from the spec: the transfer primitive of \<^verbatim>\<open>AccessTraceesMemory.cpp\<close>. It
  moves one whole word or nothing (``each full word transferred is atomic''), and it
  fails when the word is not entirely mapped (``crosses into unmapped memory'').
\<close>

definition peek_word :: "memory \<Rightarrow> addr \<Rightarrow> byte list option" where
  "peek_word m a = load m a word_size"

definition poke_word :: "memory \<Rightarrow> addr \<Rightarrow> byte list \<Rightarrow> memory option" where
  "poke_word m a w =
     (if length w = word_size \<and> load m a word_size \<noteq> None then Some (store m a w) else None)"

subsection \<open>The session\<close>

text \<open>
  Modelled from the spec: the session handle of \<^verbatim>\<open>Attach.cpp\<close>, as far as the memory
  accessor needs it: the attach state of the target (section 3, TraceeProcess) and the
  target's memory. Memory is transferred only while the target is stopped
  (invariant I1); on a detached session the accessor answers \<open>Error\<close>.
\<close>

datatype attach_state = Stopped | Detached

record session =
  attach :: attach_state
  mem :: memory

subsection \<open>Read\<close>

text \<open>
  Modelled from the spec: the result of \<^verbatim>\<open>Read\<close>,
  ``bytes | PartialRead(bytes_so_far) | Error''.
\<close>

datatype read_result = Bytes "byte list" | PartialRead "byte list" | ReadError

text \<open>
  Modelled from the spec: the loop of \<^verbatim>\<open>Read\<close> in \<^verbatim>\<open>AccessTraceesMemory.cpp\<close>. It
  reads word by word; ``if a read fails partway, [it] returns everything read so far
  tagged as partial''. Of the last word, only the bytes still asked for are kept.
\<close>

function read_loop :: "memory \<Rightarrow> addr \<Rightarrow> nat \<Rightarrow> byte list \<Rightarrow> read_result" where
  "read_loop m a remaining so_far =
     (if remaining = 0 then Bytes so_far
      else (case peek_word m a of
              None \<Rightarrow> PartialRead so_far
            | Some w \<Rightarrow>
                if word_size \<le> remaining
                then read_loop m (a + word_size) (remaining - word_size) (so_far @ w)
                else Bytes (so_far @ take remaining w)))"
  by pat_completeness auto
termination
  by (relation "measure (\<lambda>(m, a, remaining, so_far). remaining)") (auto simp: word_size_def)

declare read_loop.simps [simp del]

text \<open>Modelled from the spec: \<^verbatim>\<open>Read(session, address, length)\<close> of section 4.3.\<close>

definition Read :: "session \<Rightarrow> addr \<Rightarrow> nat \<Rightarrow> read_result" where
  "Read s address len =
     (if attach s = Stopped then read_loop (mem s) address len [] else ReadError)"

subsection \<open>Write\<close>

text \<open>
  Modelled from the spec: the result of \<^verbatim>\<open>Write\<close>,
  ``Ok | PartialWrite(bytes_written) | Error''.
\<close>

datatype write_result = Ok | PartialWrite nat | WriteError

text \<open>
  Modelled from the spec: the merge of the trailing partial word in \<^verbatim>\<open>Write\<close>,
  ``reading the existing word, overlaying only the supplied bytes, and writing the merged
  word back''.
\<close>

definition merge_word :: "byte list \<Rightarrow> byte list \<Rightarrow> byte list" where
  "merge_word supplied existing = supplied @ drop (length supplied) existing"

text \<open>
  Modelled from the spec: the loop of \<^verbatim>\<open>Write\<close> in \<^verbatim>\<open>AccessTraceesMemory.cpp\<close>. Full
  words are written one after the other; a trailing partial word is merged with the
  existing word. ``A multi-word write either completes entirely or reports the exact
  prefix committed'': \<open>written\<close> counts the bytes committed so far.
\<close>

function write_loop :: "memory \<Rightarrow> addr \<Rightarrow> byte list \<Rightarrow> nat \<Rightarrow> write_result \<times> memory" where
  "write_loop m a bytes written =
     (if bytes = [] then (Ok, m)
      else if word_size \<le> length bytes then
        (case poke_word m a (take word_size bytes) of
           None \<Rightarrow> (PartialWrite written, m)
         | Some m' \<Rightarrow> write_loop m' (a + word_size) (drop word_size bytes) (written + word_size))
      else
        (case peek_word m a of
           None \<Rightarrow> (PartialWrite written, m)
         | Some existing \<Rightarrow>
             (case poke_word m a (merge_word bytes existing) of
                None \<Rightarrow> (PartialWrite written, m)
              | Some m' \<Rightarrow> (Ok, m'))))"
  by pat_completeness auto
termination
  by (relation "measure (\<lambda>(m, a, bytes, written). length bytes)") (auto simp: word_size_def)

declare write_loop.simps [simp del]

text \<open>Modelled from the spec: \<^verbatim>\<open>Write(session, address, bytes)\<close> of section 4.3.\<close>

definition Write :: "session \<Rightarrow> addr \<Rightarrow> byte list \<Rightarrow> write_result \<times> session" where
  "Write s address bytes =
     (if attach s = Stopped
      then (case write_loop (mem s) address bytes 0 of (r, m') \<Rightarrow> (r, s\<lparr>mem := m'\<rparr>))
      else (WriteError, s))"

text \<open>
  An example target for evaluation: twenty-four mapped bytes from address 4096 on, each
  holding \<open>0xAA\<close>, and nothing else mapped.
\<close>

definition session0 :: session where
  "session0 = \<lparr>attach = Stopped,
               mem = (\<lambda>a. if 4096 \<le> a \<and> a < 4120 then Some 0xAA else None)\<rparr>"

section \<open>Properties of the capture-view element\<close>

text \<open>
  Claim C10. For every element and all arguments, the base-class \<open>Draw\<close> stores the
  given canvas pointer in \<open>canvas_\<close> (so that \<open>GetCanvas\<close> returns it afterwards)
  and leaves every other data member as it was: \<open>pos_\<close>, \<open>size_\<close>,
  \<open>time_graph_\<close>, \<open>layout_\<close>, \<open>picked_\<close>, \<open>accessible_interface_\<close> and the
  three mouse-position members.
\<close>

theorem Draw_sets_canvas_only:
  "canvas_' (Draw e canvas picking_mode z_offset) = canvas
   \<and> GetCanvas (Draw e canvas picking_mode z_offset) = canvas
   \<and> layout_' (Draw e canvas picking_mode z_offset) = layout_' e
   \<and> time_graph_' (Draw e canvas picking_mode z_offset) = time_graph_' e
   \<and> pos_' (Draw e canvas picking_mode z_offset) = pos_' e
   \<and> size_' (Draw e canvas picking_mode z_offset) = size_' e
   \<and> mouse_pos_last_click_' (Draw e canvas picking_mode z_offset) = mouse_pos_last_click_' e
   \<and> mouse_pos_cur_' (Draw e canvas picking_mode z_offset) = mouse_pos_cur_' e
   \<and> picking_offset_' (Draw e canvas picking_mode z_offset) = picking_offset_' e
   \<and> picked_' (Draw e canvas picking_mode z_offset) = picked_' e
   \<and> accessible_interface_' (Draw e canvas picking_mode z_offset) = accessible_interface_' e
   \<and> CaptureViewElement.more (Draw e canvas picking_mode z_offset) = CaptureViewElement.more e"
  by (simp add: Draw_def GetCanvas_def)

section \<open>Properties of the presets data view\<close>

subsection \<open>The string operations\<close>

text \<open>
  \<open>find_str\<close> returns \<^verbatim>\<open>npos\<close> exactly when the token does not occur in the name as
  a contiguous run, and otherwise the first position where it starts. Splitting loses
  nothing: joining the tokens with the delimiter gives the text back, and no token holds
  the delimiter.
\<close>

lemma find_str_None_iff: "find_str name token = None \<longleftrightarrow> \<not> sublist token name"
  by (induction name) (auto simp: sublist_Cons_right)

lemma find_str_Some_prefix: "find_str name token = Some p \<Longrightarrow> p \<le> length name \<and> prefix token (drop p name)"
  by (induction name arbitrary: p) (auto split: if_splits)

lemma find_str_Some_first:
  "find_str name token = Some p \<Longrightarrow> q < p \<Longrightarrow> \<not> prefix token (drop q name)"
proof (induction name arbitrary: p q)
  case Nil
  then show ?case by (simp split: if_splits)
next
  case (Cons c cs)
  show ?case
  proof (cases "prefix token (c # cs)")
    case True
    with Cons.prems show ?thesis by simp
  next
    case False
    with Cons.prems obtain p' where p': "find_str cs token = Some p'" "p = Suc p'"
      by auto
    show ?thesis
    proof (cases q)
      case 0
      with False show ?thesis by simp
    next
      case (Suc q')
      with Cons.prems p' have "q' < p'" by simp
      from Cons.IH [OF p'(1) this] Suc show ?thesis by simp
    qed
  qed
qed

lemma tokens_match_iff: "tokens_match name tokens \<longleftrightarrow> (\<forall>t \<in> set tokens. sublist t name)"
  by (induction tokens) (auto simp: find_str_None_iff)

lemma StrSplit_not_Nil: "StrSplit s d \<noteq> []"
  by (induction s) (auto split: list.splits)

lemma StrSplit_no_delimiter: "t \<in> set (StrSplit s d) \<Longrightarrow> d \<notin> set t"
  by (induction s arbitrary: t) (auto split: list.splits if_splits)

lemma StrJoin_Cons_Cons: "StrJoin ((c # t) # ts) sep = c # StrJoin (t # ts) sep"
  by (cases ts) simp_all

lemma StrJoin_StrSplit: "StrJoin (StrSplit s d) [d] = s"
proof (induction s)
  case Nil
  show ?case by simp
next
  case (Cons c cs)
  obtain t ts where split: "StrSplit cs d = t # ts"
    using StrSplit_not_Nil [of cs d] by (cases "StrSplit cs d") auto
  with Cons show ?case
    by (cases "c = d") (simp_all add: StrJoin_Cons_Cons)
qed

subsection \<open>DoFilter\<close>

text \<open>The loop appends, in order, the positions from \<open>i\<close> on whose name matches.\<close>

lemma DoFilter_loop_filter:
  "DoFilter_loop e tokens presets i indices =
     indices @ filter (\<lambda>j. tokens_match (ToLower e (path_filename e (file_name (presets ! j)))) tokens)
                 [i..<length presets]"
proof (induction e tokens presets i indices rule: DoFilter_loop.induct)
  case (1 e tokens presets i indices)
  show ?case
  proof (cases "i < length presets")
    case True
    then have upt: "[i..<length presets] = i # [Suc i..<length presets]"
      by (simp add: upt_conv_Cons)
    from True "1.IH" [OF True refl refl refl] show ?thesis
      by (subst DoFilter_loop.simps) (simp add: upt Let_def)
  next
    case False
    then show ?thesis by (subst DoFilter_loop.simps) simp
  qed
qed

text \<open>
  Claim C9. After \<open>DoFilter\<close>, \<open>indices_'\<close> holds, in strictly increasing order,
  exactly the indices \<open>i\<close> below the number of presets such that every token of the
  lowercased filter string, split at spaces, occurs in the lowercased name of preset
  \<open>i\<close>. The name that is matched is the one the code computes:
  \<^verbatim>\<open>std::filesystem::path(preset.file_name()).filename()\<close>, the file-name component of
  the stored path, not its directories. Every stored index is in bounds, and an empty
  filter (with \<^verbatim>\<open>ToLower("") == ""\<close>) selects every preset. The other members are not
  written.
\<close>

theorem DoFilter_indices:
  "indices_' (DoFilter e s) =
     filter (\<lambda>i. \<forall>token \<in> set (StrSplit (ToLower e (filter_' s)) CHR '' '').
                   sublist token (ToLower e (path_filename e (file_name (presets_' s ! i)))))
       [0..<length (presets_' s)]
   \<and> sorted_wrt (<) (indices_' (DoFilter e s))
   \<and> (\<forall>i \<in> set (indices_' (DoFilter e s)). i < length (presets_' s))
   \<and> (filter_' s = [] \<longrightarrow> ToLower e [] = [] \<longrightarrow> indices_' (DoFilter e s) = [0..<length (presets_' s)])
   \<and> presets_' (DoFilter e s) = presets_' s
   \<and> modules_' (DoFilter e s) = modules_' s
   \<and> filter_' (DoFilter e s) = filter_' s"
proof -
  let ?tokens = "StrSplit (ToLower e (filter_' s)) CHR '' ''"
  let ?P = "\<lambda>i. \<forall>token \<in> set ?tokens.
                   sublist token (ToLower e (path_filename e (file_name (presets_' s ! i))))"
  have eq: "indices_' (DoFilter e s) = filter ?P [0..<length (presets_' s)]"
    by (simp add: DoFilter_def Let_def DoFilter_loop_filter tokens_match_iff)
  have sorted: "sorted_wrt (<) (indices_' (DoFilter e s))"
    unfolding eq by (rule sorted_wrt_filter) (simp add: sorted_wrt_upt)
  have bound: "\<forall>i \<in> set (indices_' (DoFilter e s)). i < length (presets_' s)"
    unfolding eq by simp
  have empty: "filter_' s = [] \<longrightarrow> ToLower e [] = [] \<longrightarrow>
                 indices_' (DoFilter e s) = [0..<length (presets_' s)]"
    unfolding eq by simp
  have presets: "presets_' (DoFilter e s) = presets_' s"
    by (simp add: DoFilter_def Let_def)
  have modules: "modules_' (DoFilter e s) = modules_' s"
    by (simp add: DoFilter_def Let_def)
  have filter: "filter_' (DoFilter e s) = filter_' s"
    by (simp add: DoFilter_def Let_def)
  show ?thesis
    by (intro conjI) (rule eq, rule sorted, rule bound, rule empty, rule presets, rule modules, rule filter)
qed

text \<open>
  On the example view the filter \<^verbatim>\<open>FOO r\<close> keeps the presets \<^verbatim>\<open>Foo.opr\<close> and
  \<^verbatim>\<open>FooBar.opr\<close> and drops \<^verbatim>\<open>locked.opr\<close>.
\<close>

theorem DoFilter_indices_witness:
  "indices_' (DoFilter env0 view0) = [0, 2] \<and> sorted_wrt (<) (indices_' (DoFilter env0 view0))"
proof -
  have run: "indices_' (DoFilter env0 view0) = [0, 2]"
    by code_simp
  from DoFilter_indices [of env0 view0]
  have "sorted_wrt (<) (indices_' (DoFilter env0 view0))"
    by (elim conjE)
  with run show ?thesis
    by (intro conjI)
qed




text \<open>
  A directory of the path takes no part in the match: \<^verbatim>\<open>/foo/x/bar.opr\<close> does not
  pass the filter \<^verbatim>\<open>foo\<close>, although the stored path contains it.
\<close>

lemma DoFilter_matches_last_component_only:
  "indices_' (DoFilter env0
       \<lparr>indices_' = [], filter_' = ''foo'',
        presets_' = [\<lparr>file_name = ''/foo/x/bar.opr'', path_to_module = []\<rparr>],
        modules_' = [[]]\<rparr>) = []"
  by code_simp

subsection \<open>Conversions of a non-negative \<^verbatim>\<open>int\<close>\<close>

text \<open>
  A non-negative \<^verbatim>\<open>int\<close> keeps its value when it is converted to
  \<^verbatim>\<open>unsigned int\<close> or to \<^verbatim>\<open>size_t\<close>.
\<close>

lemma uint_eq_sint:
  fixes w :: "'a::len word"
  assumes nonneg: "0 \<le> sint w"
  shows "uint w = sint w"
proof -
  let ?n = "LENGTH('a) - Suc 0"
  have len: "Suc ?n = LENGTH('a)"
    by simp
  have nb: "\<not> bit (uint w) ?n"
    using nonneg by (simp add: sint_uint)
  have "sint w = signed_take_bit ?n (uint w)"
    by (rule sint_uint)
  also have "\<dots> = take_bit (Suc ?n) (uint w) - 2 ^ Suc ?n * of_bool (bit (uint w) ?n)"
    by (rule signed_take_bit_eq_take_bit_minus)
  also have "\<dots> = take_bit (Suc ?n) (uint w)"
    using nb by simp
  also have "\<dots> = take_bit LENGTH('a) (uint w)"
    by (simp only: len)
  also have "\<dots> = uint w"
    by (rule take_bit_int_eq_self) (simp_all add: uint_lt2p)
  finally show ?thesis
    by simp
qed

lemma unat_eq_nat_sint: "0 \<le> sint (w :: 'a::len word) \<Longrightarrow> unat w = nat (sint w)"
proof -
  assume "0 \<le> sint w"
  then have "uint w = sint w"
    by (rule uint_eq_sint)
  then have "nat (uint w) = nat (sint w)"
    by (rule arg_cong)
  then show ?thesis
    by (simp only: unat_eq_nat_uint)
qed

lemma unat_scast_up:
  "0 \<le> sint (row :: 32 word) \<Longrightarrow> unat (scast row :: 64 word) = nat (sint row)"
proof -
  assume nonneg: "0 \<le> sint row"
  have up: "sint (scast row :: 64 word) = sint row"
    by (rule sint_up_scast) (simp add: is_up)
  with nonneg have "0 \<le> sint (scast row :: 64 word)"
    by simp
  then have "unat (scast row :: 64 word) = nat (sint (scast row :: 64 word))"
    by (rule unat_eq_nat_sint)
  with up show ?thesis
    by simp
qed

subsection \<open>Vectors\<close>

lemma length_resize: "length (resize n d xs) = n"
  by (simp add: resize_def)

lemma length_erase: "k < length xs \<Longrightarrow> length (erase xs k) = length xs - 1"
  by (simp add: erase_def)

lemma erase_neq: "k < length xs \<Longrightarrow> erase xs k \<noteq> xs"
  using length_erase [of k xs] by (cases xs) auto

lemma nth_erase:
  "k < length xs \<Longrightarrow> j < length xs - 1 \<Longrightarrow> erase xs k ! j = (if j < k then xs ! j else xs ! Suc j)"
  by (auto simp: erase_def nth_append min_def)

subsection \<open>OnDataChanged\<close>

text \<open>
  From position \<open>i\<close> on, the loop writes the identity into \<open>indices_'\<close> and the
  module views of each preset into \<open>modules_'\<close>; so \<open>OnDataChanged\<close> hands to the
  base class a view whose indices are \<open>0, 1, \<dots>\<close> up to the number of presets.
\<close>

lemma modules_of_map: "modules_of e ps = map (\<lambda>pair. ModuleView (path_filename e (fst pair)) (snd pair)) ps"
  by (induction ps) auto

lemma OnDataChanged_loop_result:
  "length (indices_' s) = length (presets_' s) \<Longrightarrow> length (modules_' s) = length (presets_' s)
   \<Longrightarrow> i \<le> length (presets_' s)
   \<Longrightarrow> OnDataChanged_loop e i s =
       s\<lparr>indices_' := take i (indices_' s) @ [i..<length (presets_' s)],
         modules_' := take i (modules_' s)
                        @ map (\<lambda>p. modules_of e (path_to_module p)) (drop i (presets_' s))\<rparr>"
proof (induction e i s rule: OnDataChanged_loop.induct)
  case (1 e i s)
  show ?case
  proof (cases "i < length (presets_' s)")
    case True
    let ?s' = "s\<lparr>indices_' := (indices_' s)[i := i],
                  modules_' := (modules_' s)[i := modules_of e (path_to_module (presets_' s ! i))]\<rparr>"
    have step: "OnDataChanged_loop e i s = OnDataChanged_loop e (Suc i) ?s'"
      using True by (subst OnDataChanged_loop.simps) simp
    have ih: "OnDataChanged_loop e (Suc i) ?s' =
        ?s'\<lparr>indices_' := take (Suc i) (indices_' ?s') @ [Suc i..<length (presets_' ?s')],
           modules_' := take (Suc i) (modules_' ?s')
                          @ map (\<lambda>p. modules_of e (path_to_module p)) (drop (Suc i) (presets_' ?s'))\<rparr>"
      using True "1.prems" by (intro "1.IH") simp_all
    have idx: "take (Suc i) ((indices_' s)[i := i]) = take i (indices_' s) @ [i]"
      using True "1.prems" by (simp add: take_Suc_conv_app_nth)
    have mods: "take (Suc i) ((modules_' s)[i := m]) = take i (modules_' s) @ [m]" for m
      using True "1.prems" by (simp add: take_Suc_conv_app_nth)
    have upt: "[i..<length (presets_' s)] = i # [Suc i..<length (presets_' s)]"
      using True by (simp add: upt_conv_Cons)
    have drp: "drop i (presets_' s) = presets_' s ! i # drop (Suc i) (presets_' s)"
      using True by (simp add: Cons_nth_drop_Suc)
    show ?thesis
      unfolding step ih by (simp add: idx mods upt drp)
  next
    case False
    with "1.prems" show ?thesis
      by (subst OnDataChanged_loop.simps) simp
  qed
qed

lemma OnDataChanged_eq:
  "OnDataChanged e s =
     base_call (DataView_OnDataChanged e)
       (s\<lparr>indices_' := [0..<length (presets_' s)],
          modules_' := map (\<lambda>p. modules_of e (path_to_module p)) (presets_' s)\<rparr>)"
  by (simp add: OnDataChanged_def Let_def OnDataChanged_loop_result length_resize)

subsection \<open>OnContextMenu, action \<^verbatim>\<open>Delete Preset\<close>\<close>

lemma kMenuActionDelete_neq_Load: "kMenuActionDelete \<noteq> kMenuActionLoad"
  by (simp add: kMenuActionDelete_def kMenuActionLoad_def)

lemma GetPreset_row:
  assumes "is_row s row"
  shows "GetPreset s row = Inr (presets_' s ! (indices_' s ! nat (sint row)))"
proof -
  from assms have "unat row = nat (sint row)"
    by (simp add: is_row_def unat_eq_nat_sint)
  with assms show ?thesis
    by (simp add: GetPreset_def at_def is_row_def)
qed

lemma indices_at_row:
  assumes "is_row s row"
  shows "at (indices_' s) (unat (scast row :: 64 word)) = Inr (indices_' s ! nat (sint row))"
proof -
  from assms have "unat (scast row :: 64 word) = nat (sint row)"
    by (simp add: is_row_def unat_scast_up)
  with assms show ?thesis
    by (simp add: at_def is_row_def)
qed

lemma OnContextMenu_Delete_row:
  assumes row: "is_row s row"
  shows "OnContextMenu e kMenuActionDelete menu_index [row] s =
     (let k = indices_' s ! nat (sint row);
          filename = file_name (presets_' s ! k)
      in if c_remove e filename = 0
         then Inr (OnDataChanged e (s\<lparr>presets_' := erase (presets_' s) k\<rparr>), [])
         else Inr (s, [LogError filename, MetricSetStatusCode_INTERNAL_ERROR,
                       SendErrorToUi ''Error deleting preset'' (could_not_delete filename)]))"
proof -
  from row have k: "indices_' s ! nat (sint row) < length (presets_' s)"
    by (simp add: is_row_def)
  show ?thesis
    unfolding OnContextMenu_def
    by (simp add: kMenuActionDelete_neq_Load GetPreset_row [OF row] indices_at_row [OF row] k Let_def)
qed

text \<open>
  Claim C8. Take the action \<^verbatim>\<open>Delete Preset\<close> with exactly one selected index, a row
  of the view, and let \<open>filename\<close> be the file name of the preset in that row. If
  \<^verbatim>\<open>remove(filename)\<close> returns 0, the preset is erased from \<open>presets_'\<close> and
  \<open>OnDataChanged\<close> runs on the shorter vector: the indices are rebuilt as
  \<open>0, 1, \<dots>\<close>, the module views are rebuilt, and the base class is notified; no
  error is reported. If \<^verbatim>\<open>remove\<close> returns anything else, the view is returned as
  it was (\<open>presets_'\<close>, \<open>indices_'\<close>, \<open>modules_'\<close> and \<open>filter_'\<close> alike)
  and the error is reported three times over: in the log, as the status code of the
  metric, and to the user interface. Hence the presets are changed if and only if
  \<^verbatim>\<open>remove\<close> succeeded. With any number of selected indices other than one, the
  view is returned as it was and nothing is reported.
\<close>

theorem OnContextMenu_Delete:
  "(is_row s row \<longrightarrow>
      (let k = indices_' s ! nat (sint row);
           filename = file_name (presets_' s ! k);
           presets = erase (presets_' s) k;
           result = OnContextMenu e kMenuActionDelete menu_index [row] s
       in (c_remove e filename = 0 \<longrightarrow>
             result = Inr (OnDataChanged e (s\<lparr>presets_' := presets\<rparr>), [])
             \<and> OnDataChanged e (s\<lparr>presets_' := presets\<rparr>) =
                 base_call (DataView_OnDataChanged e)
                   (s\<lparr>presets_' := presets,
                      indices_' := [0..<length presets],
                      modules_' := map (\<lambda>p. modules_of e (path_to_module p)) presets\<rparr>)
             \<and> presets_' (OnDataChanged e (s\<lparr>presets_' := presets\<rparr>)) = presets
             \<and> length presets = length (presets_' s) - 1)
        \<and> (c_remove e filename \<noteq> 0 \<longrightarrow>
             result = Inr (s, [LogError filename, MetricSetStatusCode_INTERNAL_ERROR,
                               SendErrorToUi ''Error deleting preset'' (could_not_delete filename)]))
        \<and> ((\<exists>s' calls. result = Inr (s', calls) \<and> presets_' s' \<noteq> presets_' s)
               \<longleftrightarrow> c_remove e filename = 0)))
   \<and> (length item_indices \<noteq> 1 \<longrightarrow>
        OnContextMenu e kMenuActionDelete menu_index item_indices s = Inr (s, []))"
proof (intro conjI impI)
  assume row: "is_row s row"
  define k where "k = indices_' s ! nat (sint row)"
  define filename where "filename = file_name (presets_' s ! k)"
  define presets where "presets = erase (presets_' s) k"
  define result where "result = OnContextMenu e kMenuActionDelete menu_index [row] s"
  from row have k: "k < length (presets_' s)"
    by (simp add: is_row_def k_def)
  have run: "result =
      (if c_remove e filename = 0 then Inr (OnDataChanged e (s\<lparr>presets_' := presets\<rparr>), [])
       else Inr (s, [LogError filename, MetricSetStatusCode_INTERNAL_ERROR,
                     SendErrorToUi ''Error deleting preset'' (could_not_delete filename)]))"
    unfolding result_def OnContextMenu_Delete_row [OF row]
    by (simp add: Let_def k_def filename_def presets_def)
  have changed: "OnDataChanged e (s\<lparr>presets_' := presets\<rparr>) =
      base_call (DataView_OnDataChanged e)
        (s\<lparr>presets_' := presets, indices_' := [0..<length presets],
           modules_' := map (\<lambda>p. modules_of e (path_to_module p)) presets\<rparr>)"
    by (simp add: OnDataChanged_eq)
  have kept: "presets_' (OnDataChanged e (s\<lparr>presets_' := presets\<rparr>)) = presets"
    by (simp add: changed base_call_def)
  have len: "length presets = length (presets_' s) - 1"
    using k by (simp add: presets_def length_erase)
  have neq: "presets \<noteq> presets_' s"
    using k by (simp add: presets_def erase_neq)
  have iff: "(\<exists>s' calls. result = Inr (s', calls) \<and> presets_' s' \<noteq> presets_' s)
               \<longleftrightarrow> c_remove e filename = 0"
    using kept neq by (auto simp: run)
  from run changed kept len iff
  show "let k = indices_' s ! nat (sint row);
           filename = file_name (presets_' s ! k);
           presets = erase (presets_' s) k;
           result = OnContextMenu e kMenuActionDelete menu_index [row] s
       in (c_remove e filename = 0 \<longrightarrow>
             result = Inr (OnDataChanged e (s\<lparr>presets_' := presets\<rparr>), [])
             \<and> OnDataChanged e (s\<lparr>presets_' := presets\<rparr>) =
                 base_call (DataView_OnDataChanged e)
                   (s\<lparr>presets_' := presets,
                      indices_' := [0..<length presets],
                      modules_' := map (\<lambda>p. modules_of e (path_to_module p)) presets\<rparr>)
             \<and> presets_' (OnDataChanged e (s\<lparr>presets_' := presets\<rparr>)) = presets
             \<and> length presets = length (presets_' s) - 1)
        \<and> (c_remove e filename \<noteq> 0 \<longrightarrow>
             result = Inr (s, [LogError filename, MetricSetStatusCode_INTERNAL_ERROR,
                               SendErrorToUi ''Error deleting preset'' (could_not_delete filename)]))
        \<and> ((\<exists>s' calls. result = Inr (s', calls) \<and> presets_' s' \<noteq> presets_' s)
               \<longleftrightarrow> c_remove e filename = 0)"
    unfolding Let_def k_def [symmetric] filename_def [symmetric] presets_def [symmetric]
      result_def [symmetric]
    by simp
next
  assume "length item_indices \<noteq> 1"
  then show "OnContextMenu e kMenuActionDelete menu_index item_indices s = Inr (s, [])"
    by (simp add: OnContextMenu_def kMenuActionDelete_neq_Load)
qed

text \<open>
  On the example view: deleting row 2 succeeds and leaves two presets; deleting row 1,
  whose file cannot be removed, leaves the view as it was and reports the error; two
  selected rows change nothing.
\<close>

theorem OnContextMenu_Delete_witness:
  "OnContextMenu env0 kMenuActionDelete 0 [2] view0 =
     Inr (\<lparr>indices_' = [0, 1], filter_' = ''FOO r'',
          presets_' = [\<lparr>file_name = ''/home/u/Foo.opr'', path_to_module = [(''/usr/lib/libc.so'', 3)]\<rparr>,
                       \<lparr>file_name = ''/ro/locked.opr'', path_to_module = []\<rparr>],
          modules_' = [[ModuleView ''libc.so'' 3], []]\<rparr>, [])
   \<and> OnContextMenu env0 kMenuActionDelete 0 [1] view0 =
     Inr (view0, [LogError ''/ro/locked.opr'', MetricSetStatusCode_INTERNAL_ERROR,
                  SendErrorToUi ''Error deleting preset'' (could_not_delete ''/ro/locked.opr'')])
   \<and> OnContextMenu env0 kMenuActionDelete 0 [0, 1] view0 = Inr (view0, [])"
proof -
  have row2: "is_row view0 2" and row1: "is_row view0 1"
    by (simp_all add: is_row_def view0_def)
  have ok: "c_remove env0 (file_name (presets_' view0 ! (indices_' view0 ! nat (sint (2 :: c_int))))) = 0"
    by (simp add: env0_def view0_def)
  have failed: "c_remove env0 (file_name (presets_' view0 ! (indices_' view0 ! nat (sint (1 :: c_int))))) \<noteq> 0"
    by (simp add: env0_def view0_def)
  have name: "file_name (presets_' view0 ! (indices_' view0 ! nat (sint (1 :: c_int)))) = ''/ro/locked.opr''"
    by (simp add: view0_def)
  have after: "OnDataChanged env0
        (view0\<lparr>presets_' := erase (presets_' view0) (indices_' view0 ! nat (sint (2 :: c_int)))\<rparr>) =
      \<lparr>indices_' = [0, 1], filter_' = ''FOO r'',
       presets_' = [\<lparr>file_name = ''/home/u/Foo.opr'', path_to_module = [(''/usr/lib/libc.so'', 3)]\<rparr>,
                    \<lparr>file_name = ''/ro/locked.opr'', path_to_module = []\<rparr>],
       modules_' = [[ModuleView ''libc.so'' 3], []]\<rparr>"
    by code_simp
  from OnContextMenu_Delete [where s = view0 and row = 2 and e = env0 and menu_index = 0
      and item_indices = "[0, 1]"] row2 ok
  have first: "OnContextMenu env0 kMenuActionDelete 0 [2] view0 =
      Inr (OnDataChanged env0
        (view0\<lparr>presets_' := erase (presets_' view0) (indices_' view0 ! nat (sint (2 :: c_int)))\<rparr>), [])"
    and third: "OnContextMenu env0 kMenuActionDelete 0 [0, 1] view0 = Inr (view0, [])"
    by (simp_all add: Let_def)
  from OnContextMenu_Delete [where s = view0 and row = 1 and e = env0 and menu_index = 0
      and item_indices = "[0, 1]"] row1 failed name
  have second: "OnContextMenu env0 kMenuActionDelete 0 [1] view0 =
      Inr (view0, [LogError ''/ro/locked.opr'', MetricSetStatusCode_INTERNAL_ERROR,
                   SendErrorToUi ''Error deleting preset'' (could_not_delete ''/ro/locked.opr'')])"
    by (simp add: Let_def)
  from first after second third show ?thesis
    by simp
qed

text \<open>
  Outside the rows of the view the C++ reads past the end of \<^verbatim>\<open>indices_\<close>: the
  example view has three rows, and row 3 is a fault.
\<close>

lemma OnContextMenu_Delete_outside:
  "OnContextMenu env0 kMenuActionDelete 0 [3] view0 = Inl OutOfBounds"
  by code_simp

section \<open>Properties of the memory accessor\<close>

subsection \<open>Loading and storing bytes\<close>

text \<open>
  \<open>load\<close> succeeds exactly on mapped ranges and returns their contents; \<open>store\<close>
  changes the addresses it is given and no other; a word that has been peeked is mapped,
  so poking it maps nothing new.
\<close>

lemma word_size_pos: "0 < word_size"
  by (simp add: word_size_def)

lemma load_Some_iff:
  "load m a n = Some bs \<longleftrightarrow> length bs = n \<and> (\<forall>i<n. m (a + i) = Some (bs ! i))"
proof (induction n arbitrary: a bs)
  case 0
  show ?case by auto
next
  case (Suc n)
  show ?case
  proof (cases bs)
    case Nil
    then show ?thesis by (auto split: option.splits)
  next
    case (Cons b bs')
    have "(\<forall>i<Suc n. m (a + i) = Some ((b # bs') ! i))
          \<longleftrightarrow> m a = Some b \<and> (\<forall>i<n. m (Suc a + i) = Some (bs' ! i))"
      by (auto simp: less_Suc_eq_0_disj)
    with Cons Suc.IH [of "Suc a" bs'] show ?thesis
      by (auto split: option.splits)
  qed
qed

lemma load_length: "load m a n = Some bs \<Longrightarrow> length bs = n"
  by (simp add: load_Some_iff)

lemma load_mapped_iff: "load m a n \<noteq> None \<longleftrightarrow> (\<forall>i<n. m (a + i) \<noteq> None)"
proof
  assume "load m a n \<noteq> None"
  then obtain bs where "load m a n = Some bs" by auto
  then show "\<forall>i<n. m (a + i) \<noteq> None" by (simp add: load_Some_iff)
next
  assume mapped: "\<forall>i<n. m (a + i) \<noteq> None"
  have "load m a n = Some (map (\<lambda>i. the (m (a + i))) [0..<n])"
    using mapped by (auto simp: load_Some_iff)
  then show "load m a n \<noteq> None" by simp
qed

lemma load_eq_map:
  "load m a n \<noteq> None \<Longrightarrow> load m a n = Some (map (\<lambda>i. the (m (a + i))) [0..<n])"
  by (auto simp: load_Some_iff load_mapped_iff)

lemma store_apply:
  "store m a bs x = (if a \<le> x \<and> x < a + length bs then Some (bs ! (x - a)) else m x)"
proof (induction bs arbitrary: m a x)
  case Nil
  show ?case by auto
next
  case (Cons b bs)
  show ?case
  proof (cases "x = a")
    case True
    then show ?thesis by (simp add: Cons.IH)
  next
    case False
    then show ?thesis by (auto simp: Cons.IH Suc_diff_le nth_Cons')
  qed
qed

lemma load_store_same: "load (store m a bs) a (length bs) = Some bs"
  by (simp add: load_Some_iff store_apply)

lemma store_append: "store m a (xs @ ys) = store (store m a xs) (a + length xs) ys"
  by (induction xs arbitrary: m a) simp_all

lemma store_mapped: "m x \<noteq> None \<Longrightarrow> store m a bs x \<noteq> None"
  by (simp add: store_apply)

lemma load_store_mapped: "load m a' n \<noteq> None \<Longrightarrow> load (store m a bs) a' n \<noteq> None"
  unfolding load_mapped_iff by (simp add: store_apply)

lemma load_prefix: "load m a n \<noteq> None \<Longrightarrow> k \<le> n \<Longrightarrow> load m a k \<noteq> None"
  unfolding load_mapped_iff by simp

lemma load_add:
  "load m a (n + k) \<noteq> None \<longleftrightarrow> load m a n \<noteq> None \<and> load m (a + n) k \<noteq> None"
proof -
  have "(\<forall>i<n + k. m (a + i) \<noteq> None) \<longleftrightarrow> (\<forall>i<n. m (a + i) \<noteq> None) \<and> (\<forall>i<k. m (a + n + i) \<noteq> None)"
  proof (intro iffI conjI allI impI)
    fix i assume all: "\<forall>i<n + k. m (a + i) \<noteq> None" and "i < k"
    then have "n + i < n + k" by simp
    with all have "m (a + (n + i)) \<noteq> None" by blast
    then show "m (a + n + i) \<noteq> None" by (simp add: add.assoc)
  next
    fix i assume both: "(\<forall>i<n. m (a + i) \<noteq> None) \<and> (\<forall>i<k. m (a + n + i) \<noteq> None)" and i: "i < n + k"
    show "m (a + i) \<noteq> None"
    proof (cases "i < n")
      case True
      with both show ?thesis by blast
    next
      case False
      with i have "i - n < k" by simp
      with both have "m (a + n + (i - n)) \<noteq> None" by blast
      with False show ?thesis by (simp add: add.assoc)
    qed
  qed auto
  then show ?thesis unfolding load_mapped_iff .
qed

lemma poke_word_Some:
  "poke_word m a w = Some m' \<Longrightarrow> length w = word_size \<and> load m a word_size \<noteq> None \<and> m' = store m a w"
  by (auto simp: poke_word_def split: if_splits)

lemma store_merge_word:
  assumes existing: "peek_word m a = Some existing" and short: "length bytes < word_size"
  shows "store m a (merge_word bytes existing) = store m a bytes"
proof
  fix x
  from existing have len: "length existing = word_size"
    and at: "\<And>i. i < word_size \<Longrightarrow> m (a + i) = Some (existing ! i)"
    by (simp_all add: peek_word_def load_Some_iff)
  show "store m a (merge_word bytes existing) x = store m a bytes x"
  proof (cases "a \<le> x \<and> x < a + word_size")
    case False
    with short len show ?thesis
      by (auto simp: store_apply merge_word_def)
  next
    case True
    then have x: "x = a + (x - a)" "x - a < word_size" by auto
    from at [OF x(2)] x(1) have mx: "m x = Some (existing ! (x - a))" by simp
    from True short len show ?thesis
      by (auto simp: store_apply merge_word_def nth_append mx)
  qed
qed

lemma length_merge_word:
  "length existing = word_size \<Longrightarrow> length bytes < word_size \<Longrightarrow> length (merge_word bytes existing) = word_size"
  by (simp add: merge_word_def)

lemma load_append_Some:
  assumes "load m a n = Some xs" and "load m (a + n) k = Some ys"
  shows "load m a (n + k) = Some (xs @ ys)"
proof -
  from assms have xs: "length xs = n" "\<And>i. i < n \<Longrightarrow> m (a + i) = Some (xs ! i)"
    and ys: "length ys = k" "\<And>i. i < k \<Longrightarrow> m (a + n + i) = Some (ys ! i)"
    by (simp_all add: load_Some_iff)
  have "m (a + i) = Some ((xs @ ys) ! i)" if "i < n + k" for i
  proof (cases "i < n")
    case True
    with xs show ?thesis by (simp add: nth_append)
  next
    case False
    with that have "i - n < k" by simp
    from ys(2) [OF this] False xs(1) show ?thesis
      by (simp add: nth_append add.assoc)
  qed
  with xs(1) ys(1) show ?thesis
    by (simp add: load_Some_iff)
qed

lemma load_take: "load m a k = Some w \<Longrightarrow> n \<le> k \<Longrightarrow> load m a n = Some (take n w)"
  by (simp add: load_Some_iff)

lemma store_keeps_mapping:
  assumes "load m a (length w) \<noteq> None"
  shows "store m a w x \<noteq> None \<longleftrightarrow> m x \<noteq> None"
proof (cases "a \<le> x \<and> x < a + length w")
  case True
  then have "x - a < length w" and "a + (x - a) = x" by auto
  with assms have "m x \<noteq> None"
    unfolding load_mapped_iff by metis
  with True show ?thesis by (simp add: store_apply)
next
  case False
  then show ?thesis by (auto simp: store_apply)
qed

lemma load_store_mapped_iff:
  assumes "load m a (length w) \<noteq> None"
  shows "load (store m a w) a' n \<noteq> None \<longleftrightarrow> load m a' n \<noteq> None"
  unfolding load_mapped_iff store_keeps_mapping [OF assms] ..

subsection \<open>The loop of Write\<close>

text \<open>
  The loop ends in one of two ways: all bytes are in memory, and every word it touched
  was mapped; or a whole number of words, fewer bytes than supplied, is in memory and
  the count reported is the count on entry plus exactly these bytes.
\<close>

lemma write_loop_result:
  "write_loop m a bytes written = (r, m') \<Longrightarrow>
     (r = Ok \<and> m' = store m a bytes
        \<and> (\<exists>n'. length bytes \<le> n' \<and> word_size dvd n' \<and> load m a n' \<noteq> None))
     \<or> (\<exists>n. r = PartialWrite (written + n) \<and> n < length bytes \<and> word_size dvd n
            \<and> m' = store m a (take n bytes))"
proof (induction m a bytes written arbitrary: r m' rule: write_loop.induct)
  case (1 m a bytes written)
  note run = "1.prems"
  show ?case
  proof (cases "bytes = []")
    case True
    with run have "r = Ok" "m' = m"
      by (simp_all add: write_loop.simps)
    with True show ?thesis
      by (intro disjI1) (auto intro: exI [of _ 0])
  next
    case nonempty: False
    show ?thesis
    proof (cases "word_size \<le> length bytes")
      case full: True
      show ?thesis
      proof (cases "poke_word m a (take word_size bytes)")
        case None
        with run nonempty full have "r = PartialWrite written" "m' = m"
          by (simp_all add: write_loop.simps)
        with nonempty show ?thesis
          by (intro disjI2 exI [of _ 0]) simp
      next
        case (Some m1)
        from poke_word_Some [OF Some] full
        have m1: "m1 = store m a (take word_size bytes)"
          and mapped: "load m a (length (take word_size bytes)) \<noteq> None"
          and len: "length (take word_size bytes) = word_size"
          by simp_all
        from run nonempty full Some
        have rest: "write_loop m1 (a + word_size) (drop word_size bytes) (written + word_size) = (r, m')"
          by (simp add: write_loop.simps [of m a bytes])
        from "1.IH" [OF nonempty full Some rest]
        show ?thesis
        proof (elim disjE conjE exE)
          fix n'
          assume ok: "r = Ok" and m': "m' = store m1 (a + word_size) (drop word_size bytes)"
            and n': "length (drop word_size bytes) \<le> n'" "word_size dvd n'"
              "load m1 (a + word_size) n' \<noteq> None"
          have "m' = store m a (take word_size bytes @ drop word_size bytes)"
            by (simp only: m' m1 store_append len)
          then have whole: "m' = store m a bytes"
            by simp
          from n'(3) have "load m (a + word_size) n' \<noteq> None"
            unfolding m1 load_store_mapped_iff [OF mapped] .
          with mapped len have "load m a (word_size + n') \<noteq> None"
            by (simp only: load_add) simp
          moreover from n'(1) have "length bytes \<le> word_size + n'"
            by simp
          moreover from n'(2) have "word_size dvd word_size + n'"
            by simp
          ultimately show ?thesis
            using ok whole by blast
        next
          fix n
          assume part: "r = PartialWrite (written + word_size + n)"
            and n: "n < length (drop word_size bytes)" "word_size dvd n"
            and m': "m' = store m1 (a + word_size) (take n (drop word_size bytes))"
          have "m' = store m a (take word_size bytes @ take n (drop word_size bytes))"
            by (simp only: m' m1 store_append len)
          also have "take word_size bytes @ take n (drop word_size bytes) = take (word_size + n) bytes"
            by (simp add: take_add)
          finally have "m' = store m a (take (word_size + n) bytes)" .
          moreover from n(1) have "word_size + n < length bytes"
            by simp
          moreover from n(2) have "word_size dvd word_size + n"
            by simp
          moreover from part have "r = PartialWrite (written + (word_size + n))"
            by (simp add: add.assoc)
          ultimately show ?thesis
            by blast
        qed
      qed
    next
      case short: False
      show ?thesis
      proof (cases "peek_word m a")
        case None
        with run nonempty short have "r = PartialWrite written" "m' = m"
          by (simp_all add: write_loop.simps)
        with nonempty show ?thesis
          by (intro disjI2 exI [of _ 0]) simp
      next
        case (Some existing)
        show ?thesis
        proof (cases "poke_word m a (merge_word bytes existing)")
          case None
          with run nonempty short Some have "r = PartialWrite written" "m' = m"
            by (simp_all add: write_loop.simps)
          with nonempty show ?thesis
            by (intro disjI2 exI [of _ 0]) simp
        next
          case poked: (Some m1)
          with run nonempty short Some have "r = Ok" "m' = m1"
            by (simp_all add: write_loop.simps)
          moreover from poke_word_Some [OF poked] short Some
          have "m1 = store m a bytes" and "load m a word_size \<noteq> None"
            by (simp_all add: store_merge_word)
          moreover from short have "length bytes \<le> word_size"
            by simp
          ultimately show ?thesis
            by (intro disjI1) auto
        qed
      qed
    qed
  qed
qed

subsection \<open>The loop of Read\<close>

text \<open>
  If the words that cover the range are mapped, the loop returns the contents of the
  range. In general it returns either the contents of the whole range, or the contents
  of a whole number of words short of the range, followed by a word that cannot be
  peeked.
\<close>

lemma read_loop_complete:
  "n \<le> n' \<Longrightarrow> word_size dvd n' \<Longrightarrow> load m a n' \<noteq> None
   \<Longrightarrow> \<exists>bs. load m a n = Some bs \<and> read_loop m a n so_far = Bytes (so_far @ bs)"
proof (induction m a n so_far arbitrary: n' rule: read_loop.induct)
  case (1 m a remaining so_far)
  show ?case
  proof (cases "remaining = 0")
    case True
    then show ?thesis
      by (simp add: read_loop.simps)
  next
    case False
    with "1.prems" have "0 < n'" by simp
    with "1.prems"(2) have ws: "word_size \<le> n'"
      by (simp add: dvd_imp_le)
    then have split: "n' = word_size + (n' - word_size)"
      by simp
    from "1.prems"(3) have "load m a (word_size + (n' - word_size)) \<noteq> None"
      using split by simp
    then have first: "load m a word_size \<noteq> None" and rest: "load m (a + word_size) (n' - word_size) \<noteq> None"
      unfolding load_add by simp_all
    from first obtain w where w: "peek_word m a = Some w"
      by (auto simp: peek_word_def)
    show ?thesis
    proof (cases "word_size \<le> remaining")
      case True
      have "remaining - word_size \<le> n' - word_size"
        using "1.prems"(1) by simp
      moreover have "word_size dvd n' - word_size"
        using "1.prems"(2) by simp
      ultimately obtain bs where bs: "load m (a + word_size) (remaining - word_size) = Some bs"
        and run: "read_loop m (a + word_size) (remaining - word_size) (so_far @ w) = Bytes ((so_far @ w) @ bs)"
        using "1.IH" [OF False w True _ _ rest] by blast
      from w bs have "load m a (word_size + (remaining - word_size)) = Some (w @ bs)"
        unfolding peek_word_def by (rule load_append_Some)
      with True have "load m a remaining = Some (w @ bs)"
        by simp
      moreover from False w True run have "read_loop m a remaining so_far = Bytes (so_far @ w @ bs)"
        by (simp add: read_loop.simps [of m a remaining])
      ultimately show ?thesis
        by blast
    next
      case short: False
      from short have le: "remaining \<le> word_size"
        by simp
      from w have "load m a word_size = Some w"
        by (simp add: peek_word_def)
      from this le have "load m a remaining = Some (take remaining w)"
        by (rule load_take)
      moreover from False w short have "read_loop m a remaining so_far = Bytes (so_far @ take remaining w)"
        by (simp add: read_loop.simps [of m a remaining])
      ultimately show ?thesis
        by blast
    qed
  qed
qed

lemma read_loop_sound:
  "read_loop m a n so_far = res \<Longrightarrow>
     (\<exists>bs. res = Bytes (so_far @ bs) \<and> load m a n = Some bs)
     \<or> (\<exists>bs. res = PartialRead (so_far @ bs) \<and> length bs < n \<and> word_size dvd length bs
            \<and> load m a (length bs) = Some bs \<and> peek_word m (a + length bs) = None)"
proof (induction m a n so_far arbitrary: res rule: read_loop.induct)
  case (1 m a remaining so_far)
  note run = "1.prems"
  show ?case
  proof (cases "remaining = 0")
    case True
    with run have "res = Bytes so_far"
      by (simp add: read_loop.simps)
    with True show ?thesis
      by simp
  next
    case False
    show ?thesis
    proof (cases "peek_word m a")
      case None
      with run False have "res = PartialRead so_far"
        by (simp add: read_loop.simps)
      with None False show ?thesis
        by (intro disjI2 exI [of _ "[]"]) simp
    next
      case (Some w)
      then have w: "load m a word_size = Some w" and lw: "length w = word_size"
        by (simp_all add: peek_word_def load_Some_iff)
      show ?thesis
      proof (cases "word_size \<le> remaining")
        case True
        with run False Some
        have rest: "read_loop m (a + word_size) (remaining - word_size) (so_far @ w) = res"
          by (simp add: read_loop.simps [of m a remaining])
        from "1.IH" [OF False Some True rest]
        show ?thesis
        proof (elim disjE exE conjE)
          fix bs
          assume res: "res = Bytes ((so_far @ w) @ bs)"
            and bs: "load m (a + word_size) (remaining - word_size) = Some bs"
          from w bs have "load m a (word_size + (remaining - word_size)) = Some (w @ bs)"
            by (rule load_append_Some)
          with True res show ?thesis
            by (intro disjI1 exI [of _ "w @ bs"]) simp
        next
          fix bs
          assume res: "res = PartialRead ((so_far @ w) @ bs)"
            and len: "length bs < remaining - word_size" and dvd: "word_size dvd length bs"
            and bs: "load m (a + word_size) (length bs) = Some bs"
            and stop: "peek_word m (a + word_size + length bs) = None"
          from w bs have "load m a (word_size + length bs) = Some (w @ bs)"
            by (rule load_append_Some)
          with res len dvd stop lw show ?thesis
            by (intro disjI2 exI [of _ "w @ bs"]) (simp add: add.assoc)
        qed
      next
        case short: False
        with run False Some have "res = Bytes (so_far @ take remaining w)"
          by (simp add: read_loop.simps [of m a remaining])
        moreover from short have "remaining \<le> word_size"
          by simp
        with w have "load m a remaining = Some (take remaining w)"
          by (rule load_take)
        ultimately show ?thesis
          by simp
      qed
    qed
  qed
qed

subsection \<open>Write and Read\<close>

text \<open>
  Where the words that cover the range are mapped, the write completes: writing the full
  length of a mapped region never reports a partial write.
\<close>

lemma write_loop_complete:
  "length bytes \<le> n' \<Longrightarrow> word_size dvd n' \<Longrightarrow> load m a n' \<noteq> None
   \<Longrightarrow> write_loop m a bytes written = (Ok, store m a bytes)"
proof (induction m a bytes written arbitrary: n' rule: write_loop.induct)
  case (1 m a bytes written)
  show ?case
  proof (cases "bytes = []")
    case True
    then show ?thesis
      by (simp add: write_loop.simps)
  next
    case nonempty: False
    with "1.prems"(1) have "0 < n'" by (cases bytes) auto
    with "1.prems"(2) have ws: "word_size \<le> n'"
      by (simp add: dvd_imp_le)
    then have "n' = word_size + (n' - word_size)"
      by simp
    with "1.prems"(3) have "load m a (word_size + (n' - word_size)) \<noteq> None"
      by simp
    then have first: "load m a word_size \<noteq> None"
      and rest: "load m (a + word_size) (n' - word_size) \<noteq> None"
      unfolding load_add by simp_all
    show ?thesis
    proof (cases "word_size \<le> length bytes")
      case full: True
      let ?m1 = "store m a (take word_size bytes)"
      from full have len: "length (take word_size bytes) = word_size"
        by simp
      with first have poke: "poke_word m a (take word_size bytes) = Some ?m1"
        by (simp add: poke_word_def)
      have "length (drop word_size bytes) \<le> n' - word_size"
        using "1.prems"(1) by simp
      moreover have "word_size dvd n' - word_size"
        using "1.prems"(2) by simp
      moreover from rest have "load ?m1 (a + word_size) (n' - word_size) \<noteq> None"
        by (rule load_store_mapped)
      ultimately have "write_loop ?m1 (a + word_size) (drop word_size bytes) (written + word_size) =
          (Ok, store ?m1 (a + word_size) (drop word_size bytes))"
        by (rule "1.IH" [OF nonempty full poke])
      moreover have "store ?m1 (a + word_size) (drop word_size bytes) =
          store m a (take word_size bytes @ drop word_size bytes)"
        by (simp only: store_append len)
      ultimately show ?thesis
        using nonempty full poke by (simp add: write_loop.simps [of m a bytes])
    next
      case short: False
      from first obtain existing where existing: "peek_word m a = Some existing"
        by (auto simp: peek_word_def)
      then have "length existing = word_size"
        by (simp add: peek_word_def load_length)
      with short have "length (merge_word bytes existing) = word_size"
        by (simp add: length_merge_word)
      with first have "poke_word m a (merge_word bytes existing) = Some (store m a (merge_word bytes existing))"
        by (simp add: poke_word_def)
      moreover from existing short have "store m a (merge_word bytes existing) = store m a bytes"
        by (simp add: store_merge_word)
      ultimately show ?thesis
        using nonempty short existing by (simp add: write_loop.simps [of m a bytes])
    qed
  qed
qed

lemma Write_complete:
  assumes "attach s = Stopped" and "length B \<le> n'" and "word_size dvd n'"
    and "load (mem s) a n' \<noteq> None"
  shows "Write s a B = (Ok, s\<lparr>mem := store (mem s) a B\<rparr>)"
  using assms(1) write_loop_complete [OF assms(2-4)] by (simp add: Write_def)

lemma session0_mapped: "load (mem session0) 4096 24 \<noteq> None"
  unfolding load_mapped_iff by (simp add: session0_def)

lemma Write_Ok:
  assumes "Write s a B = (Ok, s')"
  shows "attach s = Stopped" and "s' = s\<lparr>mem := store (mem s) a B\<rparr>"
    and "\<exists>n'. length B \<le> n' \<and> word_size dvd n' \<and> load (mem s) a n' \<noteq> None"
proof -
  from assms show stopped: "attach s = Stopped"
    by (auto simp: Write_def split: if_splits)
  obtain r m' where run: "write_loop (mem s) a B 0 = (r, m')"
    by (cases "write_loop (mem s) a B 0")
  with assms stopped have r: "r = Ok" and s': "s' = s\<lparr>mem := m'\<rparr>"
    by (simp_all add: Write_def)
  from write_loop_result [OF run] r
  have "m' = store (mem s) a B"
    and mapped: "\<exists>n'. length B \<le> n' \<and> word_size dvd n' \<and> load (mem s) a n' \<noteq> None"
    by auto
  with s' show "s' = s\<lparr>mem := store (mem s) a B\<rparr>" by simp
  from mapped show "\<exists>n'. length B \<le> n' \<and> word_size dvd n' \<and> load (mem s) a n' \<noteq> None" .
qed

lemma Write_result:
  assumes "attach s = Stopped" and "Write s a B = (r, s')"
  shows "(r = Ok \<and> s' = s\<lparr>mem := store (mem s) a B\<rparr>)
     \<or> (\<exists>n. r = PartialWrite n \<and> n < length B \<and> word_size dvd n
            \<and> s' = s\<lparr>mem := store (mem s) a (take n B)\<rparr>)"
proof -
  obtain r0 m' where run: "write_loop (mem s) a B 0 = (r0, m')"
    by (cases "write_loop (mem s) a B 0")
  with assms have "r = r0" and "s' = s\<lparr>mem := m'\<rparr>"
    by (simp_all add: Write_def)
  with write_loop_result [OF run] show ?thesis
    by auto
qed

lemma Write_frame:
  assumes "Write s a B = (r, s')" and "x < a \<or> a + length B \<le> x"
  shows "mem s' x = mem s x"
proof (cases "attach s = Stopped")
  case True
  from Write_result [OF True assms(1)] assms(2) show ?thesis
    by (auto simp: store_apply)
next
  case False
  with assms(1) show ?thesis
    by (simp add: Write_def)
qed

lemma last_word_mapped:
  assumes n': "length B \<le> n'" "word_size dvd n'" and partial: "length B mod word_size \<noteq> 0"
  shows "length B - length B mod word_size + word_size \<le> n'"
proof -
  let ?q = "length B div word_size"
  from n'(2) obtain k where k: "n' = word_size * k" ..
  from partial n'(2) have "length B \<noteq> n'"
    by auto
  with n'(1) k have "length B < k * word_size"
    by (simp add: mult.commute)
  then have "?q < k"
    by (simp add: div_less_iff_less_mult word_size_pos)
  then have "Suc ?q \<le> k"
    by simp
  then have "word_size * Suc ?q \<le> word_size * k"
    by (rule mult_le_mono2)
  moreover have "length B - length B mod word_size = word_size * ?q"
    by (simp add: minus_mod_eq_mult_div)
  ultimately show ?thesis
    using k by simp
qed

lemma Write_last_word:
  assumes ok: "Write s a B = (Ok, s')" and partial: "length B mod word_size \<noteq> 0"
  defines "q \<equiv> length B - length B mod word_size"
  shows "\<exists>existing. peek_word (mem s) (a + q) = Some existing
           \<and> peek_word (mem s') (a + q) = Some (merge_word (drop q B) existing)"
proof -
  note w = Write_Ok [OF ok]
  from w(3) obtain n' where n': "length B \<le> n'" "word_size dvd n'"
    and mapped: "load (mem s) a n' \<noteq> None"
    by blast
  from last_word_mapped [OF n' partial] have "q + word_size \<le> n'"
    by (simp add: q_def)
  with mapped have "load (mem s) a (q + word_size) \<noteq> None"
    by (rule load_prefix)
  then have "load (mem s) (a + q) word_size \<noteq> None"
    unfolding load_add by simp
  then obtain existing where existing: "load (mem s) (a + q) word_size = Some existing"
    by auto
  then have len: "length existing = word_size"
    and at: "\<And>i. i < word_size \<Longrightarrow> mem s (a + q + i) = Some (existing ! i)"
    by (simp_all add: load_Some_iff)
  have q_le: "q \<le> length B"
    by (simp add: q_def)
  have tail: "length B - q = length B mod word_size"
    by (simp add: q_def)
  then have short: "length B - q < word_size"
    by (simp add: word_size_pos)
  have "mem s' (a + q + i) = Some (merge_word (drop q B) existing ! i)" if i: "i < word_size" for i
  proof (cases "i < length B - q")
    case True
    then have inside: "q + i < length B"
      by linarith
    then have "mem s' (a + q + i) = Some (B ! (q + i))"
      by (simp add: w(2) store_apply add.assoc)
    with True q_le show ?thesis
      by (simp add: merge_word_def nth_append)
  next
    case False
    then have outside: "\<not> q + i < length B"
      by linarith
    then have "mem s' (a + q + i) = mem s (a + q + i)"
      by (simp add: w(2) store_apply add.assoc)
    with False at [OF i] len i show ?thesis
      by (simp add: merge_word_def nth_append)
  qed
  moreover from len short have "length (merge_word (drop q B) existing) = word_size"
    by (simp add: merge_word_def)
  ultimately have "load (mem s') (a + q) word_size = Some (merge_word (drop q B) existing)"
    by (simp add: load_Some_iff)
  with existing show ?thesis
    by (auto simp: peek_word_def)
qed

text \<open>
  On the example target, eleven bytes written at address 4100 lie inside the mapped
  region together with the two words that cover them, so the write succeeds.
\<close>

lemma session0_Write_Ok:
  "Write session0 4100 [1, 2, 3, 4, 5, 6, 7, 8, 9, 10, 11] =
     (Ok, snd (Write session0 4100 [1, 2, 3, 4, 5, 6, 7, 8, 9, 10, 11]))"
proof -
  let ?B = "[1, 2, 3, 4, 5, 6, 7, 8, 9, 10, 11] :: byte list"
  have "load (mem session0) (4096 + 4) (4 + 16) \<noteq> None"
    using session0_mapped load_add [of "mem session0" 4096 4 20] by simp
  then have "load (mem session0) 4100 16 \<noteq> None"
    using load_prefix [of "mem session0" 4100 20 16] by simp
  moreover have "attach session0 = Stopped"
    by (simp add: session0_def)
  moreover have "length ?B \<le> 16" and "word_size dvd 16"
    by (simp_all add: word_size_def)
  ultimately have "Write session0 4100 ?B = (Ok, session0\<lparr>mem := store (mem session0) 4100 ?B\<rparr>)"
    by (intro Write_complete)
  then show ?thesis
    by simp
qed

text \<open>
  Claim C2. Whenever \<open>Write\<close> of a byte sequence \<open>B\<close> at an address succeeds,
  \<open>Read\<close> of \<open>length B\<close> bytes at the same address, on the session that the write
  leaves, returns exactly \<open>B\<close>. This holds at every address where the write
  succeeds, hence in particular for every non-empty \<open>B\<close> and every range inside a
  region obtained from a remote allocation.
\<close>

theorem Write_Read_roundtrip:
  assumes "Write s address B = (Ok, s')"
  shows "Read s' address (length B) = Bytes B"
proof -
  note ok = Write_Ok [OF assms]
  from ok(3) obtain n' where n': "length B \<le> n'" "word_size dvd n'"
    and mapped: "load (mem s) address n' \<noteq> None"
    by blast
  let ?m' = "store (mem s) address B"
  from mapped have "load ?m' address n' \<noteq> None"
    by (rule load_store_mapped)
  from read_loop_complete [OF n' this]
  obtain bs where bs: "load ?m' address (length B) = Some bs"
    and run: "read_loop ?m' address (length B) [] = Bytes ([] @ bs)"
    by blast
  from bs have "bs = B"
    by (simp add: load_store_same)
  with run ok(1,2) show ?thesis
    by (simp add: Read_def)
qed

text \<open>Eleven bytes written at address 4100 of the example target are read back.\<close>

theorem Write_Read_roundtrip_witness:
  "Read (snd (Write session0 4100 [1, 2, 3, 4, 5, 6, 7, 8, 9, 10, 11])) 4100 11
     = Bytes [1, 2, 3, 4, 5, 6, 7, 8, 9, 10, 11]"
proof -
  let ?B = "[1, 2, 3, 4, 5, 6, 7, 8, 9, 10, 11] :: byte list"
  from session0_Write_Ok
  have "Read (snd (Write session0 4100 ?B)) 4100 (length ?B) = Bytes ?B"
    by (rule Write_Read_roundtrip)
  moreover have "length ?B = 11"
    by simp
  ultimately show ?thesis
    by (simp only:)
qed

text \<open>
  Claim C4. When a write of \<open>B\<close> succeeds and the length of \<open>B\<close> is not a multiple
  of the word size, the last word in the target is the word that stood there before with
  only the supplied trailing bytes laid over it; no byte outside the range of \<open>B\<close> is
  changed by any write, successful or not. And on a stopped target every write either
  commits all of \<open>B\<close> and answers \<open>Ok\<close>, or answers \<open>PartialWrite n\<close> where
  \<open>n\<close> is smaller than the length of \<open>B\<close>, a whole number of words (no word is
  written in part), and the memory afterwards is the memory before with exactly the
  first \<open>n\<close> bytes of \<open>B\<close> stored.
\<close>

theorem Write_partial_word_and_prefix:
  "(Write s a B = (Ok, s') \<longrightarrow> length B mod word_size \<noteq> 0 \<longrightarrow>
      (\<exists>existing.
         peek_word (mem s) (a + (length B - length B mod word_size)) = Some existing
         \<and> peek_word (mem s') (a + (length B - length B mod word_size)) =
             Some (merge_word (drop (length B - length B mod word_size) B) existing)))
   \<and> (Write s a B = (r, s') \<longrightarrow> (\<forall>x. x < a \<or> a + length B \<le> x \<longrightarrow> mem s' x = mem s x))
   \<and> (attach s = Stopped \<longrightarrow> Write s a B = (r, s') \<longrightarrow>
        (r = Ok \<and> s' = s\<lparr>mem := store (mem s) a B\<rparr>)
        \<or> (\<exists>n. r = PartialWrite n \<and> n < length B \<and> word_size dvd n
               \<and> s' = s\<lparr>mem := store (mem s) a (take n B)\<rparr>))"
proof (intro conjI impI allI)
  assume "Write s a B = (Ok, s')" and "length B mod word_size \<noteq> 0"
  then show "\<exists>existing.
         peek_word (mem s) (a + (length B - length B mod word_size)) = Some existing
         \<and> peek_word (mem s') (a + (length B - length B mod word_size)) =
             Some (merge_word (drop (length B - length B mod word_size) B) existing)"
    by (rule Write_last_word)
next
  fix x
  assume "Write s a B = (r, s')" and "x < a \<or> a + length B \<le> x"
  then show "mem s' x = mem s x"
    by (rule Write_frame)
next
  assume "attach s = Stopped" and "Write s a B = (r, s')"
  then show "(r = Ok \<and> s' = s\<lparr>mem := store (mem s) a B\<rparr>)
        \<or> (\<exists>n. r = PartialWrite n \<and> n < length B \<and> word_size dvd n
               \<and> s' = s\<lparr>mem := store (mem s) a (take n B)\<rparr>)"
    by (rule Write_result)
qed

text \<open>
  On the example target: of the eleven bytes written at 4100, the last three go into the
  word at 4108, whose other five bytes keep their value, and so does the byte at 4111
  behind the range.
\<close>

theorem Write_partial_word_and_prefix_witness:
  "(\<exists>existing.
      peek_word (mem session0) 4108 = Some existing
      \<and> peek_word (mem (snd (Write session0 4100 [1, 2, 3, 4, 5, 6, 7, 8, 9, 10, 11]))) 4108 =
          Some (merge_word [9, 10, 11] existing))
   \<and> mem (snd (Write session0 4100 [1, 2, 3, 4, 5, 6, 7, 8, 9, 10, 11])) 4111 = mem session0 4111"
proof -
  let ?B = "[1, 2, 3, 4, 5, 6, 7, 8, 9, 10, 11] :: byte list"
  let ?s' = "snd (Write session0 4100 ?B)"
  note inst = Write_partial_word_and_prefix [of session0 4100 ?B ?s' Ok]
  have partial: "length ?B mod word_size \<noteq> 0"
    by (simp add: word_size_def)
  have q: "length ?B - length ?B mod word_size = 8"
    by (simp add: word_size_def)
  have addr: "(4100 :: nat) + 8 = 4108"
    by simp
  from inst session0_Write_Ok partial
  have "\<exists>existing.
      peek_word (mem session0) (4100 + (length ?B - length ?B mod word_size)) = Some existing
      \<and> peek_word (mem ?s') (4100 + (length ?B - length ?B mod word_size)) =
          Some (merge_word (drop (length ?B - length ?B mod word_size) ?B) existing)"
    by blast
  then have first: "\<exists>existing.
      peek_word (mem session0) 4108 = Some existing
      \<and> peek_word (mem ?s') 4108 = Some (merge_word [9, 10, 11] existing)"
    unfolding q addr by simp
  from inst session0_Write_Ok
  have "\<forall>x. x < 4100 \<or> 4100 + length ?B \<le> x \<longrightarrow> mem ?s' x = mem session0 x"
    by blast
  then have second: "mem ?s' 4111 = mem session0 4111"
    by simp
  from first second show ?thesis
    by (intro conjI)
qed

text \<open>
  Claim C6. A result \<open>PartialRead bs\<close> carries exactly the bytes of the target from
  the start address on, as many as were read (a whole number of words, fewer than asked
  for), and the word behind them could not be read. A result \<open>Bytes bs\<close> carries the
  contents of the whole range, never fewer bytes. Every byte returned is a byte of mapped
  memory, so none is made up. On a stopped target, a range with an unmapped byte is
  answered by \<open>PartialRead\<close>, and \<open>Read\<close> never answers \<open>ReadError\<close>.
\<close>

theorem Read_partial_prefix:
  "(Read s a len = PartialRead bs \<longrightarrow>
      length bs < len \<and> word_size dvd length bs
      \<and> load (mem s) a (length bs) = Some bs
      \<and> peek_word (mem s) (a + length bs) = None)
   \<and> (Read s a len = Bytes bs \<longrightarrow> length bs = len \<and> load (mem s) a len = Some bs)
   \<and> (attach s = Stopped \<longrightarrow> load (mem s) a len = None \<longrightarrow> (\<exists>p. Read s a len = PartialRead p))
   \<and> (attach s = Stopped \<longrightarrow> Read s a len \<noteq> ReadError)"
proof (cases "attach s = Stopped")
  case False
  then show ?thesis
    by (simp add: Read_def)
next
  case True
  then have run: "read_loop (mem s) a len [] = Read s a len"
    by (simp add: Read_def)
  from read_loop_sound [OF run]
  show ?thesis
  proof (elim disjE exE conjE)
    fix out
    assume "Read s a len = Bytes ([] @ out)" and "load (mem s) a len = Some out"
    then show ?thesis
      by (auto simp: load_length)
  next
    fix out
    assume "Read s a len = PartialRead ([] @ out)" and "length out < len"
      and "word_size dvd length out" and "load (mem s) a (length out) = Some out"
      and "peek_word (mem s) (a + length out) = None"
    then show ?thesis
      by auto
  qed
qed

text \<open>
  Reading twenty-five bytes at 4100 of the example target runs past the mapped region:
  the result is partial and holds what the target has at 4100.
\<close>

theorem Read_partial_prefix_witness:
  "\<exists>p. Read session0 4100 25 = PartialRead p \<and> length p < 25
        \<and> load (mem session0) 4100 (length p) = Some p"
proof -
  have stopped: "attach session0 = Stopped"
    by (simp add: session0_def)
  have hole: "mem session0 (4100 + 20) = None"
    by (simp add: session0_def)
  have "\<not> (\<forall>i<25. mem session0 (4100 + i) \<noteq> None)"
  proof
    assume "\<forall>i<25. mem session0 (4100 + i) \<noteq> None"
    then have "(20 :: nat) < 25 \<longrightarrow> mem session0 (4100 + 20) \<noteq> None"
      by (rule spec)
    with hole show False
      by simp
  qed
  then have unmapped: "load (mem session0) 4100 25 = None"
    using load_mapped_iff [of "mem session0" 4100 25] by blast
  from Read_partial_prefix [of session0 4100 25] stopped unmapped
  obtain p where p: "Read session0 4100 25 = PartialRead p"
    by blast
  with Read_partial_prefix [of session0 4100 25 p]
  have "length p < 25" and "load (mem session0) 4100 (length p) = Some p"
    by blast+
  with p show ?thesis
    by blast
qed

end
